theory Spec2Isabelle
  imports Main "HOL-Library.Log_Nat" "HOL-Library.Word"
begin

section \<open>JavaScript strings and numbers\<close>

text \<open>
  A JavaScript string is a sequence of UTF-16 code units. None of the regular expressions of
  \<^verbatim>\<open>Reader.tsx\<close> carries the \<^verbatim>\<open>u\<close> flag, so they match code unit by code unit, and
  \<^verbatim>\<open>length\<close>, \<^verbatim>\<open>substring\<close> and \<^verbatim>\<open>split\<close> count code units as well.
\<close>

type_synonym jsstring = "16 word list"

text \<open>
  A JavaScript number is an IEEE 754 double. Every finite double is a rational, and the model
  keeps that rational; an arithmetic operation computes the exact result and rounds it to the
  nearest double, ties to even. Only the normal range is modelled (no overflow to infinity, no
  subnormal results, no NaN): the numbers of this program are string lengths, the literals
  \<^verbatim>\<open>0.6\<close>, \<^verbatim>\<open>0.7\<close>, \<^verbatim>\<open>2\<close> and the strength setting.
\<close>

type_synonym jsnumber = rat

text \<open>\<open>binade x\<close> is the exponent \<open>e\<close> with \<open>2^e \<le> x < 2^(e+1)\<close>, for \<open>0 < x\<close>.\<close>

definition binade :: "rat \<Rightarrow> int" where
  "binade x = (if 1 \<le> x then bitlen \<lfloor>x\<rfloor> - 1 else - bitlen (\<lceil>1 / x\<rceil> - 1))"

definition roundTiesToEven :: "rat \<Rightarrow> int" where
  "roundTiesToEven q =
     (let f = \<lfloor>q\<rfloor>; r = q - of_int f
      in if r < 1 / 2 then f else if 1 / 2 < r then f + 1 else if even f then f else f + 1)"

text \<open>Rounding to 53 significant bits: the spacing of the doubles around \<open>x\<close> is \<open>2^(e-52)\<close>.\<close>

definition roundDouble :: "rat \<Rightarrow> jsnumber" where
  "roundDouble x =
     (if x = 0 then 0
      else let u = 2 powi (binade \<bar>x\<bar> - 52) in of_int (roundTiesToEven (x / u)) * u)"

definition jsMul :: "jsnumber \<Rightarrow> jsnumber \<Rightarrow> jsnumber" where
  "jsMul a b = roundDouble (a * b)"

text \<open>The divisor of the one division in the program is the literal \<^verbatim>\<open>2\<close>, never zero.\<close>

definition jsDiv :: "jsnumber \<Rightarrow> jsnumber \<Rightarrow> jsnumber" where
  "jsDiv a b = roundDouble (a / b)"

definition mathCeil :: "jsnumber \<Rightarrow> int" where
  "mathCeil x = \<lceil>x\<rceil>"

text \<open>The numeric literals \<^verbatim>\<open>0.6\<close> and \<^verbatim>\<open>0.7\<close> denote the doubles nearest to 6/10 and 7/10.\<close>

definition lit_0_6 :: jsnumber where
  "lit_0_6 = roundDouble (6 / 10)"

definition lit_0_7 :: jsnumber where
  "lit_0_7 = roundDouble (7 / 10)"

text \<open>
  \<^verbatim>\<open>s.substring(start, end)\<close>: both indices are clamped to \<open>[0, length]\<close> and swapped when
  out of order; \<^verbatim>\<open>s.substring(start)\<close> runs to the end of the string.
\<close>

definition substring :: "jsstring \<Rightarrow> int \<Rightarrow> int \<Rightarrow> jsstring" where
  "substring s start end =
     (let len = int (length s);
          a = min (max start 0) len;
          b = min (max end 0) len;
          from = min a b;
          to = max a b
      in take (nat (to - from)) (drop (nat from) s))"

definition substringFrom :: "jsstring \<Rightarrow> int \<Rightarrow> jsstring" where
  "substringFrom s start = substring s start (int (length s))"

text \<open>
  \<^verbatim>\<open>s.trim()\<close> removes WhiteSpace and LineTerminator code units from both ends.
\<close>

definition isWhiteSpace :: "16 word \<Rightarrow> bool" where
  "isWhiteSpace c \<longleftrightarrow>
     (0x0009 \<le> c \<and> c \<le> 0x000D) \<or> c = 0x0020 \<or> c = 0x00A0 \<or> c = 0x1680 \<or>
     (0x2000 \<le> c \<and> c \<le> 0x200A) \<or> c = 0x2028 \<or> c = 0x2029 \<or> c = 0x202F \<or>
     c = 0x205F \<or> c = 0x3000 \<or> c = 0xFEFF"

definition trim :: "jsstring \<Rightarrow> jsstring" where
  "trim s = rev (dropWhile isWhiteSpace (rev (dropWhile isWhiteSpace s)))"

text \<open>
  \<^verbatim>\<open>s.split(' ')\<close>: the string is cut at every occurrence of the separator; the piece being
  collected is the second argument. The empty string gives one empty piece.
\<close>

fun splitFrom :: "16 word \<Rightarrow> jsstring \<Rightarrow> jsstring \<Rightarrow> jsstring list" where
  "splitFrom sep piece [] = [piece]"
| "splitFrom sep piece (c # cs) =
     (if c = sep then piece # splitFrom sep [] cs else splitFrom sep (piece @ [c]) cs)"

definition splitSpace :: "jsstring \<Rightarrow> jsstring list" where
  "splitSpace s = splitFrom 0x20 [] s"

text \<open>
  \<^verbatim>\<open>text.split(/\n+/)\<close>: at a newline the greedy \<^verbatim>\<open>\n+\<close> takes the whole run of newlines,
  the piece collected so far is emitted, and the scan resumes behind the run. What is left at
  the end is emitted too, also when it is empty.
\<close>

function splitNewlinesFrom :: "jsstring \<Rightarrow> jsstring \<Rightarrow> jsstring list" where
  "splitNewlinesFrom piece [] = [piece]"
| "splitNewlinesFrom piece (c # cs) =
     (if c = 0x0A then piece # splitNewlinesFrom [] (dropWhile (\<lambda>d. d = 0x0A) cs)
      else splitNewlinesFrom (piece @ [c]) cs)"
  by pat_completeness auto
termination
  by (relation "measure (\<lambda>(piece, cs). length cs)")
     (auto simp: less_Suc_eq_le length_dropWhile_le)

definition splitNewlines :: "jsstring \<Rightarrow> jsstring list" where
  "splitNewlines s = splitNewlinesFrom [] s"

text \<open>\<^verbatim>\<open>words.join(sep)\<close>, the inverse the reconstruction property refers to.\<close>

fun joinWith :: "jsstring \<Rightarrow> jsstring list \<Rightarrow> jsstring" where
  "joinWith sep [] = []"
| "joinWith sep [x] = x"
| "joinWith sep (x # y # ys) = x @ sep @ joinWith sep (y # ys)"


section \<open>Character classes and the script classifier\<close>

text \<open>The class \<^verbatim>\<open>[U+4E00-U+9FA5]\<close>, both in \<^verbatim>\<open>isChineseChar\<close> and in \<^verbatim>\<open>hasChinese\<close>.\<close>

definition inChineseRange :: "16 word \<Rightarrow> bool" where
  "inChineseRange c \<longleftrightarrow> 0x4E00 \<le> c \<and> c \<le> 0x9FA5"

text \<open>
  \<^verbatim>\<open>RegExp.prototype.test\<close> without anchors succeeds when some code unit of the argument
  is in the class. \<^verbatim>\<open>isChineseChar\<close> is called on whole segments, not on single characters.
\<close>

definition isChineseChar :: "jsstring \<Rightarrow> bool" where
  "isChineseChar char = list_ex inChineseRange char"

definition hasChinese :: "jsstring \<Rightarrow> bool" where
  "hasChinese text = list_ex inChineseRange text"

text \<open>\<^verbatim>\<open>\w\<close> is \<^verbatim>\<open>[A-Za-z0-9_]\<close>, \<^verbatim>\<open>\W\<close> its complement.\<close>

definition isWordChar :: "16 word \<Rightarrow> bool" where
  "isWordChar c \<longleftrightarrow>
     (0x30 \<le> c \<and> c \<le> 0x39) \<or> (0x41 \<le> c \<and> c \<le> 0x5A) \<or> c = 0x5F \<or>
     (0x61 \<le> c \<and> c \<le> 0x7A)"

definition isNonWordChar :: "16 word \<Rightarrow> bool" where
  "isNonWordChar c \<longleftrightarrow> \<not> isWordChar c"

text \<open>\<^verbatim>\<open>/\w/.test(word)\<close>\<close>

definition hasWordChar :: "jsstring \<Rightarrow> bool" where
  "hasWordChar word = list_ex isWordChar word"

text \<open>The class of the second group, \<^verbatim>\<open>\w\<close>, U+00C0 to U+017F, U+4E00 to U+9FFF, apostrophe and hyphen.\<close>

definition isCoreChar :: "16 word \<Rightarrow> bool" where
  "isCoreChar c \<longleftrightarrow>
     isWordChar c \<or> (0x00C0 \<le> c \<and> c \<le> 0x017F) \<or> (0x4E00 \<le> c \<and> c \<le> 0x9FFF) \<or>
     c = 0x27 \<or> c = 0x2D"


section \<open>The token pattern\<close>

text \<open>
  \<^verbatim>\<open>word.match\<close> of the pattern \<^verbatim>\<open>^(\W*)(C+)(\W*)$\<close>, where \<open>C\<close> is the class of
  core characters, by backtracking, as the engine does it. The first group is greedy: it
  starts with the longest run of \<^verbatim>\<open>\W\<close> at the beginning of the token and gives code
  units back one at a time. For a prefix of \<open>i\<close> code units the second group starts with the
  longest run of core characters behind it and gives back down to one. A split is accepted
  when everything behind the core is \<^verbatim>\<open>\W\<close>, which is what the greedy third group
  followed by \<^verbatim>\<open>$\<close> demands. The result is the triple of the three groups, \<open>None\<close> for
  \<^verbatim>\<open>null\<close>.
\<close>

fun tryCore :: "jsstring \<Rightarrow> nat \<Rightarrow> nat \<Rightarrow> (jsstring \<times> jsstring \<times> jsstring) option" where
  "tryCore w i 0 = None"
| "tryCore w i (Suc j) =
     (if list_all isNonWordChar (drop (i + Suc j) w)
      then Some (take i w, take (Suc j) (drop i w), drop (i + Suc j) w)
      else tryCore w i j)"

definition longestCore :: "jsstring \<Rightarrow> nat \<Rightarrow> nat" where
  "longestCore w i = length (takeWhile isCoreChar (drop i w))"

fun tryPrefix :: "jsstring \<Rightarrow> nat \<Rightarrow> (jsstring \<times> jsstring \<times> jsstring) option" where
  "tryPrefix w 0 = tryCore w 0 (longestCore w 0)"
| "tryPrefix w (Suc i) =
     (case tryCore w (Suc i) (longestCore w (Suc i)) of
        Some m \<Rightarrow> Some m
      | None \<Rightarrow> tryPrefix w i)"

definition matchWord :: "jsstring \<Rightarrow> (jsstring \<times> jsstring \<times> jsstring) option" where
  "matchWord w = tryPrefix w (length (takeWhile isNonWordChar w))"


section \<open>The bold-length policy\<close>

text \<open>
  The four statements on \<^verbatim>\<open>boldLength\<close> of the Latin branch, in the order of the source;
  \<open>L\<close> is \<^verbatim>\<open>core.length\<close>, an integer that a double holds exactly.
\<close>

definition latinBoldLength :: "nat \<Rightarrow> jsnumber \<Rightarrow> int" where
  "latinBoldLength L strength =
     (let boldLength = 1;
          boldLength = (if L > 3 then mathCeil (jsDiv (of_nat L) 2) else boldLength);
          boldLength = (if L \<le> 3 \<and> strength \<ge> 2 then 1 else boldLength);
          boldLength = (if strength = 3 then mathCeil (jsMul (of_nat L) lit_0_6) else boldLength)
      in boldLength)"

text \<open>The four statements of the Chinese branch; \<open>L\<close> is \<^verbatim>\<open>word.length\<close>.\<close>

definition cjkBoldLength :: "nat \<Rightarrow> jsnumber \<Rightarrow> int" where
  "cjkBoldLength L strength =
     (let boldLength = 1;
          boldLength = (if L \<ge> 2 then mathCeil (jsDiv (of_nat L) 2) else boldLength);
          boldLength = (if strength = 1 then 1 else boldLength);
          boldLength = (if strength = 3 then mathCeil (jsMul (of_nat L) lit_0_7) else boldLength)
      in boldLength)"


section \<open>The rendered output\<close>

text \<open>
  One constructor for each JSX element the code returns, holding its text children in order;
  keys and class names are styling and are left out.
  \<^item> \<open>Plain word\<close>: \<^verbatim>\<open><span>{word}</span>\<close>, a segment of a Chinese paragraph that is
    passed through;
  \<^item> \<open>BionicCJK boldPart normalPart\<close>:
    \<^verbatim>\<open><span><b>{boldPart}</b><span>{normalPart}</span></span>\<close>;
  \<^item> \<open>PlainSpaced word\<close>: \<^verbatim>\<open><span>{word}{' '}</span>\<close>, a Latin token the pattern
    did not match;
  \<^item> \<open>BionicLatin prefix boldPart normalPart suffix\<close>:
    \<^verbatim>\<open><span>{prefix}<b>{boldPart}</b><span>{normalPart}</span>{suffix}{' '}</span>\<close>.
\<close>

datatype span =
    Plain jsstring
  | BionicCJK jsstring jsstring
  | PlainSpaced jsstring
  | BionicLatin jsstring jsstring jsstring jsstring

text \<open>
  The three \<^verbatim>\<open><p>\<close> elements: of a Chinese paragraph, of a Latin paragraph, and
  \<^verbatim>\<open><p>{p}</p>\<close> when bionic reading is off.
\<close>

datatype paragraphElement =
    ChineseP "span list"
  | LatinP "span list"
  | PlainP jsstring

text \<open>The text a span shows (its \<^verbatim>\<open>textContent\<close>), the appended \<^verbatim>\<open>{' '}\<close> included.\<close>

fun textContent :: "span \<Rightarrow> jsstring" where
  "textContent (Plain word) = word"
| "textContent (BionicCJK boldPart normalPart) = boldPart @ normalPart"
| "textContent (PlainSpaced word) = word @ [0x20]"
| "textContent (BionicLatin prefix boldPart normalPart suffix) =
     prefix @ boldPart @ normalPart @ suffix @ [0x20]"

fun paragraphText :: "paragraphElement \<Rightarrow> jsstring" where
  "paragraphText (ChineseP spans) = concat (map textContent spans)"
| "paragraphText (LatinP spans) = concat (map textContent spans)"
| "paragraphText (PlainP p) = p"


section \<open>The transformation\<close>

text \<open>
  \<^verbatim>\<open>Intl.Segmenter\<close> belongs to the runtime, not to the program: when the runtime has it, it
  is a function from the paragraph to its word segments, and \<open>None\<close> stands for a runtime
  without it, where the code falls back to \<^verbatim>\<open>paragraph.split('')\<close>.
\<close>

type_synonym segmenter = "(jsstring \<Rightarrow> jsstring list) option"

definition cjkSegments :: "segmenter \<Rightarrow> jsstring \<Rightarrow> jsstring list" where
  "cjkSegments intl paragraph =
     (case intl of
        Some segment \<Rightarrow> segment paragraph
      | None \<Rightarrow> map (\<lambda>c. [c]) paragraph)"

definition cjkSegment :: "jsnumber \<Rightarrow> jsstring \<Rightarrow> span" where
  "cjkSegment strength word =
     (if trim word = [] then Plain word
      else if \<not> isChineseChar word \<and> \<not> hasWordChar word then Plain word
      else let boldLength = cjkBoldLength (length word) strength;
               boldPart = substring word 0 boldLength;
               normalPart = substringFrom word boldLength
           in BionicCJK boldPart normalPart)"

definition latinWord :: "jsnumber \<Rightarrow> jsstring \<Rightarrow> span" where
  "latinWord strength word =
     (case matchWord word of
        Some (prefix, core, suffix) \<Rightarrow>
          if core = [] then PlainSpaced word
          else let boldLength = latinBoldLength (length core) strength;
                   boldPart = substring core 0 boldLength;
                   normalPart = substringFrom core boldLength
               in BionicLatin prefix boldPart normalPart suffix
      | None \<Rightarrow> PlainSpaced word)"

text \<open>The body of \<^verbatim>\<open>paragraphs.map\<close>.\<close>

definition transformParagraph :: "segmenter \<Rightarrow> jsnumber \<Rightarrow> jsstring \<Rightarrow> paragraphElement" where
  "transformParagraph intl strength paragraph =
     (if hasChinese paragraph
      then ChineseP (map (cjkSegment strength) (cjkSegments intl paragraph))
      else LatinP (map (latinWord strength) (splitSpace paragraph)))"

definition transformToBionic :: "segmenter \<Rightarrow> jsstring \<Rightarrow> jsnumber \<Rightarrow> paragraphElement list" where
  "transformToBionic intl text strength =
     (if text = [] then []
      else map (transformParagraph intl strength) (splitNewlines text))"

text \<open>
  The two settings the reader consumes; the others only style the page. The strength is any
  finite number: the settings panel offers 1 to 3, the type is \<^verbatim>\<open>number\<close>.
\<close>

record ReadingSettings =
  bionicEnabled :: bool
  bionicStrength :: jsnumber

text \<open>The \<^verbatim>\<open>useMemo\<close> callback of \<^verbatim>\<open>Reader\<close>.\<close>

definition processedContent :: "segmenter \<Rightarrow> jsstring \<Rightarrow> ReadingSettings \<Rightarrow> paragraphElement list" where
  "processedContent intl text settings =
     (if bionicEnabled settings then transformToBionic intl text (bionicStrength settings)
      else map PlainP (splitNewlines text))"

text \<open>
  The entry point as the specification names it. A JavaScript call either returns or throws;
  the code above contains no \<^verbatim>\<open>throw\<close> and calls nothing that throws on a string, a
  boolean and a number, so every call returns, which is the \<open>Inr\<close> here.
\<close>

datatype error = InvalidArgument

definition annotate :: "segmenter \<Rightarrow> jsstring \<Rightarrow> bool \<Rightarrow> jsnumber \<Rightarrow> error + paragraphElement list" where
  "annotate intl text enabled strength =
     Inr (processedContent intl text \<lparr>bionicEnabled = enabled, bionicStrength = strength\<rparr>)"


section \<open>Notions of the specification\<close>

text \<open>
  The text of one segment as the specification counts it, leading + bold + normal + trailing:
  the groups of the token, without the \<^verbatim>\<open>{' '}\<close> the Latin branch appends, which is the
  separator between tokens.
\<close>

fun segmentText :: "span \<Rightarrow> jsstring" where
  "segmentText (Plain word) = word"
| "segmentText (BionicCJK boldPart normalPart) = boldPart @ normalPart"
| "segmentText (PlainSpaced word) = word"
| "segmentText (BionicLatin prefix boldPart normalPart suffix) =
     prefix @ boldPart @ normalPart @ suffix"

text \<open>
  What the rendering surface of the specification puts together from the segments of one
  paragraph: a single space between Latin tokens, nothing between Chinese segments.
\<close>

fun reconstruct :: "paragraphElement \<Rightarrow> jsstring" where
  "reconstruct (ChineseP spans) = concat (map segmentText spans)"
| "reconstruct (LatinP spans) = joinWith [0x20] (map segmentText spans)"
| "reconstruct (PlainP p) = p"

text \<open>
  The number of maximal runs of code units other than newline; the flag says whether the
  previous code unit belongs to a run.
\<close>

fun countRuns :: "bool \<Rightarrow> jsstring \<Rightarrow> nat" where
  "countRuns inRun [] = 0"
| "countRuns inRun (c # cs) =
     (if c = 0x0A then countRuns False cs
      else (if inRun then 0 else 1) + countRuns True cs)"

definition nonEmptyRuns :: "jsstring \<Rightarrow> nat" where
  "nonEmptyRuns text = countRuns False text"

text \<open>The spans each of the two branches builds.\<close>

fun chineseSpan :: "span \<Rightarrow> bool" where
  "chineseSpan (Plain word) = True"
| "chineseSpan (BionicCJK boldPart normalPart) = True"
| "chineseSpan (PlainSpaced word) = False"
| "chineseSpan (BionicLatin prefix boldPart normalPart suffix) = False"

fun latinSpan :: "span \<Rightarrow> bool" where
  "latinSpan (Plain word) = False"
| "latinSpan (BionicCJK boldPart normalPart) = False"
| "latinSpan (PlainSpaced word) = True"
| "latinSpan (BionicLatin prefix boldPart normalPart suffix) = True"


section \<open>Rounding to double precision\<close>

text \<open>
  The products \<^verbatim>\<open>length * 0.6\<close> and \<^verbatim>\<open>length * 0.7\<close> are rounded, and the literals
  themselves are not the decimal fractions. The lemmas of this section bound the rounding
  error and show that \<^verbatim>\<open>Math.ceil\<close> of the rounded product is the ceiling of the exact
  decimal product, for every length below \<open>2^32\<close>. No JavaScript engine builds a string that
  long.
\<close>

lemma binade_ge1:
  assumes "1 \<le> x"
  shows "2 powi (binade x) \<le> x \<and> x < 2 powi (binade x + 1)"
proof -
  have fx: "0 < \<lfloor>x\<rfloor>" using assms by simp
  from bitlen_bounds[OF fx]
  have b: "2 ^ nat (bitlen \<lfloor>x\<rfloor> - 1) \<le> \<lfloor>x\<rfloor>" "\<lfloor>x\<rfloor> < 2 ^ nat (bitlen \<lfloor>x\<rfloor>)" by auto
  have bl: "1 \<le> bitlen \<lfloor>x\<rfloor>" using fx by (simp add: bitlen_alt_def)
  have e: "binade x = bitlen \<lfloor>x\<rfloor> - 1" using assms by (simp add: binade_def)
  have "(2::rat) powi (binade x) = of_int (2 ^ nat (bitlen \<lfloor>x\<rfloor> - 1))"
    using bl by (simp add: e power_int_def)
  also have "\<dots> \<le> of_int \<lfloor>x\<rfloor>" using b(1) by (simp only: of_int_le_iff)
  also have "\<dots> \<le> x" by simp
  finally have lo: "2 powi (binade x) \<le> x" .
  have "\<lfloor>x\<rfloor> + 1 \<le> 2 ^ nat (bitlen \<lfloor>x\<rfloor>)" using b(2) by simp
  then have "of_int (\<lfloor>x\<rfloor> + 1) \<le> (of_int (2 ^ nat (bitlen \<lfloor>x\<rfloor>)) :: rat)"
    by (simp only: of_int_le_iff)
  moreover have "x < of_int (\<lfloor>x\<rfloor> + 1)" by linarith
  moreover have "(2::rat) powi (binade x + 1) = of_int (2 ^ nat (bitlen \<lfloor>x\<rfloor>))"
    using bl by (simp add: e power_int_def)
  ultimately have "x < 2 powi (binade x + 1)" by simp
  with lo show ?thesis by simp
qed

lemma binade_lt1:
  assumes "0 < x" "x < 1"
  shows "2 powi (binade x) \<le> x \<and> x < 2 powi (binade x + 1)"
proof -
  define n where "n = \<lceil>1 / x\<rceil>"
  define k where "k = bitlen (n - 1)"
  have y1: "1 < 1 / x" using assms by simp
  then have n2: "2 \<le> n" unfolding n_def by linarith
  then have pos: "0 < n - 1" by simp
  from bitlen_bounds[OF pos]
  have b: "2 ^ nat (k - 1) \<le> n - 1" "n - 1 < 2 ^ nat k" by (auto simp: k_def)
  have k1: "1 \<le> k" using pos by (simp add: k_def bitlen_alt_def)
  have e: "binade x = - k" using assms by (simp add: binade_def k_def n_def)
  have "n \<le> 2 ^ nat k" using b(2) by simp
  then have "(of_int n :: rat) \<le> 2 ^ nat k" by simp
  moreover have "1 / x \<le> of_int n" unfolding n_def by simp
  ultimately have "1 / x \<le> 2 ^ nat k" by (rule order_trans[rotated])
  then have "1 \<le> 2 ^ nat k * x" using assms(1) by (simp add: field_simps)
  then have lo: "1 / 2 ^ nat k \<le> x" by (simp add: field_simps)
  have "of_int n - 1 < 1 / x" unfolding n_def by linarith
  moreover have "(2 ^ nat (k - 1) :: rat) \<le> of_int n - 1"
  proof -
    have "(of_int (2 ^ nat (k - 1)) :: rat) \<le> of_int (n - 1)"
      using b(1) by (simp only: of_int_le_iff)
    then show ?thesis by simp
  qed
  ultimately have "2 ^ nat (k - 1) < 1 / x" by linarith
  then have "2 ^ nat (k - 1) * x < 1" using assms(1) by (simp add: field_simps)
  then have hi: "x < 1 / 2 ^ nat (k - 1)" by (simp add: field_simps)
  have p1: "(2::rat) powi (binade x) = 1 / 2 ^ nat k"
    using k1 by (simp add: e power_int_def field_simps)
  have p2: "(2::rat) powi (binade x + 1) = 1 / 2 ^ nat (k - 1)"
  proof (cases "k = 1")
    case True then show ?thesis by (simp add: e)
  next
    case False
    then have "- k + 1 < 0" using k1 by simp
    moreover have "nat (- (- k + 1)) = nat (k - 1)" by simp
    ultimately show ?thesis by (simp add: e power_int_def field_simps)
  qed
  show ?thesis using lo hi p1 p2 by simp
qed

lemma binade_bounds:
  "0 < x \<Longrightarrow> 2 powi (binade x) \<le> x \<and> x < 2 powi (binade x + 1)"
  using binade_ge1[of x] binade_lt1[of x] by (cases "1 \<le> x") auto

lemma roundTiesToEven_error: "\<bar>of_int (roundTiesToEven q) - q\<bar> \<le> 1 / 2"
proof -
  have "of_int \<lfloor>q\<rfloor> \<le> q" "q < of_int \<lfloor>q\<rfloor> + 1" by linarith+
  then show ?thesis
    unfolding roundTiesToEven_def Let_def by (simp add: abs_le_iff)
qed

lemma roundTiesToEven_le:
  assumes "q \<le> of_int n"
  shows "roundTiesToEven q \<le> n"
proof (cases "q = of_int n")
  case True
  then show ?thesis by (simp add: roundTiesToEven_def)
next
  case False
  then have "q < of_int n" using assms by simp
  then have "\<lfloor>q\<rfloor> < n" by (simp add: floor_less_iff)
  then show ?thesis unfolding roundTiesToEven_def Let_def by simp
qed

lemma roundTiesToEven_of_int [simp]: "roundTiesToEven (of_int n) = n"
  by (simp add: roundTiesToEven_def)

lemma roundDouble_error:
  assumes "0 < x"
  shows "\<bar>roundDouble x - x\<bar> \<le> 2 powi (binade x - 53)"
proof -
  define u :: rat where "u = 2 powi (binade x - 52)"
  have u0: "0 < u" by (simp add: u_def)
  have "\<bar>of_int (roundTiesToEven (x / u)) - x / u\<bar> \<le> 1 / 2"
    by (rule roundTiesToEven_error)
  then have "\<bar>of_int (roundTiesToEven (x / u)) - x / u\<bar> * u \<le> 1 / 2 * u"
    using u0 by (simp only: mult_le_cancel_right_pos)
  moreover have "\<bar>of_int (roundTiesToEven (x / u)) - x / u\<bar> * u
      = \<bar>of_int (roundTiesToEven (x / u)) * u - x\<bar>"
  proof -
    have "\<bar>of_int (roundTiesToEven (x / u)) - x / u\<bar> * \<bar>u\<bar>
      = \<bar>(of_int (roundTiesToEven (x / u)) - x / u) * u\<bar>"
      by (simp only: abs_mult)
    also have "(of_int (roundTiesToEven (x / u)) - x / u) * u
      = of_int (roundTiesToEven (x / u)) * u - x"
      using u0 by (simp add: left_diff_distrib)
    finally show ?thesis using u0 by simp
  qed
  moreover have "1 / 2 * u = 2 powi (binade x - 53)"
    by (simp add: u_def power_int_diff)
  moreover have "roundDouble x = of_int (roundTiesToEven (x / u)) * u"
    using assms by (simp add: roundDouble_def u_def Let_def)
  ultimately show ?thesis by simp
qed

lemma binade_less:
  assumes "0 < x" "x < 2 ^ n"
  shows "binade x < int n"
proof -
  have "(2::rat) powi (binade x) \<le> x" using binade_bounds[OF assms(1)] by simp
  also have "x < 2 powi (int n)" using assms(2) by simp
  finally have "(2::rat) powi (binade x) < 2 powi (int n)" .
  then show ?thesis by (rule power_int_le_imp_less_exp[rotated]) simp_all
qed

lemma ulp_inverse:
  assumes "0 < x" "x < 2 ^ 53"
  shows "(2::rat) powi (binade x - 52) = 1 / 2 ^ nat (52 - binade x)"
proof -
  have "binade x < 53" using binade_less[OF assms] by simp
  then have "(2::rat) powi (binade x - 52) = 2 powi (- int (nat (52 - binade x)))" by simp
  also have "\<dots> = 1 / 2 ^ nat (52 - binade x)"
    by (simp only: power_int_minus power_int_of_nat) (simp add: field_simps)
  finally show ?thesis .
qed

lemma roundDouble_scaled:
  assumes "0 < x" "x < 2 ^ 53"
  shows "roundDouble x
    = of_int (roundTiesToEven (x * 2 ^ nat (52 - binade x))) / 2 ^ nat (52 - binade x)"
  using assms by (simp add: roundDouble_def Let_def ulp_inverse)

lemma roundDouble_le_int:
  assumes "0 < x" "x < 2 ^ 53" "x \<le> of_int n"
  shows "roundDouble x \<le> of_int n"
proof -
  define k where "k = nat (52 - binade x)"
  have "x * 2 ^ k \<le> of_int n * 2 ^ k" using assms(3) by simp
  also have "\<dots> = of_int (n * 2 ^ k)" by simp
  finally have "roundTiesToEven (x * 2 ^ k) \<le> n * 2 ^ k" by (rule roundTiesToEven_le)
  then have "(of_int (roundTiesToEven (x * 2 ^ k)) :: rat) \<le> of_int (n * 2 ^ k)"
    by (simp only: of_int_le_iff)
  then have "of_int (roundTiesToEven (x * 2 ^ k)) / 2 ^ k \<le> (of_int n :: rat)"
    by (simp add: field_simps)
  then show ?thesis using roundDouble_scaled[OF assms(1,2)] by (simp add: k_def)
qed

lemma roundDouble_half:
  assumes "0 < L" "L < 2 ^ 53"
  shows "roundDouble (of_nat L / 2) = of_nat L / 2"
proof -
  define x :: rat where "x = of_nat L / 2"
  define k where "k = nat (52 - binade x)"
  have x0: "0 < x" using assms(1) by (simp add: x_def)
  have "(of_nat L :: rat) < of_nat (2 ^ 53)" using assms(2) by (simp only: of_nat_less_iff)
  then have x52: "x < 2 ^ 52" by (simp add: x_def)
  then have x53: "x < 2 ^ 53" by simp
  have "binade x < 52" using binade_less[OF x0 x52] by simp
  then obtain j where kj: "k = Suc j" unfolding k_def by (cases "nat (52 - binade x)") auto
  have "x * 2 ^ k = of_int (int L * 2 ^ j)" by (simp add: x_def kj)
  then have "roundTiesToEven (x * 2 ^ k) = int L * 2 ^ j" by (simp only: roundTiesToEven_of_int)
  then have "roundDouble x = of_int (int L * 2 ^ j) / 2 ^ k"
    using roundDouble_scaled[OF x0 x53] by (simp add: k_def)
  also have "\<dots> = x" by (simp add: x_def kj)
  finally show ?thesis by (simp add: x_def)
qed

lemma ceiling_roundDouble:
  assumes "0 < x" "x < 2 ^ 32" "of_int N - 15 / 16 \<le> x" "x \<le> of_int N"
  shows "\<lceil>roundDouble x\<rceil> = N"
proof -
  have "binade x < 32" using binade_less[OF assms(1,2)] by simp
  then have "binade x - 53 \<le> - 22" by simp
  then have "(2::rat) powi (binade x - 53) \<le> 2 powi (- 22)"
    by (rule power_int_increasing) simp_all
  also have "\<dots> < 1 / 16" by (simp add: power_int_minus)
  finally have "\<bar>roundDouble x - x\<bar> < 1 / 16"
    using roundDouble_error[OF assms(1)] by simp
  then have lo: "of_int N - 1 < roundDouble x" using assms(3) by linarith
  have "x < 2 ^ 53" using assms(2) by simp
  then have hi: "roundDouble x \<le> of_int N" using assms(1,4) by (simp add: roundDouble_le_int)
  show ?thesis using lo hi by (simp add: ceiling_unique)
qed


lemma ceiling_mul_literal:
  assumes L: "0 < L" "L < 2 ^ 32"
    and c: "0 < c" "c \<le> q" "q \<le> 1" "q - c \<le> 1 / 2 ^ 40"
    and N: "of_int N - 9 / 10 \<le> of_nat L * q" "of_nat L * q \<le> of_int N"
  shows "mathCeil (jsMul (of_nat L) c) = N"
proof -
  define x :: rat where "x = of_nat L * c"
  have l0: "(0::rat) < of_nat L" using L(1) by simp
  have "(of_nat L :: rat) < of_nat (2 ^ 32)" using L(2) by (simp only: of_nat_less_iff)
  then have l32: "(of_nat L :: rat) < 2 ^ 32" by simp
  have x0: "0 < x" using l0 c(1) by (simp add: x_def)
  have xq: "x \<le> of_nat L * q" using l0 c(2) by (simp add: x_def)
  have "of_nat L * q \<le> (of_nat L :: rat) * 1" using l0 c(3) by (simp only: mult_le_cancel_left_pos)
  then have x32: "x < 2 ^ 32" using xq l32 by simp
  have "of_nat L * (q - c) \<le> (2 ^ 32 :: rat) * (1 / 2 ^ 40)"
    using l32 l0 c(2,4) by (intro mult_mono) simp_all
  then have "of_nat L * q - x \<le> 1 / 256" by (simp add: x_def right_diff_distrib)
  then have lo: "of_int N - 15 / 16 \<le> x" using N(1) by linarith
  have hi: "x \<le> of_int N" using xq N(2) by linarith
  show ?thesis
    unfolding mathCeil_def jsMul_def using ceiling_roundDouble[OF x0 x32 lo hi] by (simp add: x_def)
qed

lemma lit_0_6_value: "lit_0_6 = 5404319552844595 / 2 ^ 53"
  by code_simp

lemma lit_0_7_value: "lit_0_7 = 6305039478318694 / 2 ^ 53"
  by code_simp

lemma ceiling_tenths:
  fixes k :: int
  shows "\<lceil>(of_int k :: rat) / 10\<rceil> = (k + 9) div 10"
proof (rule ceiling_unique)
  have a: "10 * ((k + 9) div 10) \<le> k + 9" "k < 10 * ((k + 9) div 10) + 1" by presburger+
  have "(of_int (10 * ((k + 9) div 10)) :: rat) \<le> of_int (k + 9)" using a(1) by (simp only: of_int_le_iff)
  then show "of_int ((k + 9) div 10) - 1 < (of_int k :: rat) / 10" by simp
  have "(of_int k :: rat) < of_int (10 * ((k + 9) div 10) + 1)" using a(2) by (simp only: of_int_less_iff)
  then have "(of_int k :: rat) \<le> of_int (10 * ((k + 9) div 10))"
    using a(2) by (simp only: of_int_le_iff)
  then show "(of_int k :: rat) / 10 \<le> of_int ((k + 9) div 10)" by simp
qed

lemma mathCeil_mul_0_6:
  assumes "0 < L" "L < 2 ^ 32"
  shows "mathCeil (jsMul (of_nat L) lit_0_6) = \<lceil>(of_nat L :: rat) * 6 / 10\<rceil>"
proof -
  define N where "N = (6 * int L + 9) div 10"
  have "10 * N \<le> 6 * int L + 8" "6 * int L \<le> 10 * N" unfolding N_def by presburger+
  then have "(of_int (10 * N) :: rat) \<le> of_int (6 * int L + 8)" "(of_int (6 * int L) :: rat) \<le> of_int (10 * N)"
    by (simp_all only: of_int_le_iff)
  then have b: "of_int N - 9 / 10 \<le> of_nat L * (6 / 10 :: rat)" "of_nat L * (6 / 10 :: rat) \<le> of_int N"
    by simp_all
  have "mathCeil (jsMul (of_nat L) lit_0_6) = N"
    by (rule ceiling_mul_literal[where q = "6 / 10", OF assms _ _ _ _ b])
       (simp_all add: lit_0_6_value)
  moreover have "\<lceil>(of_nat L :: rat) * 6 / 10\<rceil> = N"
    using ceiling_tenths[of "6 * int L"] by (simp add: N_def mult.commute)
  ultimately show ?thesis by simp
qed

lemma mathCeil_mul_0_7:
  assumes "0 < L" "L < 2 ^ 32"
  shows "mathCeil (jsMul (of_nat L) lit_0_7) = \<lceil>(of_nat L :: rat) * 7 / 10\<rceil>"
proof -
  define N where "N = (7 * int L + 9) div 10"
  have "10 * N \<le> 7 * int L + 9" "7 * int L \<le> 10 * N" unfolding N_def by presburger+
  then have "(of_int (10 * N) :: rat) \<le> of_int (7 * int L + 9)" "(of_int (7 * int L) :: rat) \<le> of_int (10 * N)"
    by (simp_all only: of_int_le_iff)
  then have b: "of_int N - 9 / 10 \<le> of_nat L * (7 / 10 :: rat)" "of_nat L * (7 / 10 :: rat) \<le> of_int N"
    by simp_all
  have "mathCeil (jsMul (of_nat L) lit_0_7) = N"
    by (rule ceiling_mul_literal[where q = "7 / 10", OF assms _ _ _ _ b])
       (simp_all add: lit_0_7_value)
  moreover have "\<lceil>(of_nat L :: rat) * 7 / 10\<rceil> = N"
    using ceiling_tenths[of "7 * int L"] by (simp add: N_def mult.commute)
  ultimately show ?thesis by simp
qed

lemma mathCeil_half:
  assumes "0 < L" "L < 2 ^ 32"
  shows "mathCeil (jsDiv (of_nat L) 2) = \<lceil>(of_nat L :: rat) / 2\<rceil>"
proof -
  have "L < 2 ^ 53" using assms(2) by simp
  then show ?thesis using assms(1) by (simp add: mathCeil_def jsDiv_def roundDouble_half)
qed


section \<open>The bold length in closed form\<close>

lemma latinBoldLength_eq:
  assumes "0 < L" "L < 2 ^ 32"
  shows "latinBoldLength L S =
    (if S = 3 then \<lceil>(of_nat L :: rat) * 6 / 10\<rceil>
     else if 3 < L then \<lceil>(of_nat L :: rat) / 2\<rceil> else 1)"
  using assms
  by (simp add: latinBoldLength_def Let_def mathCeil_mul_0_6 mathCeil_half)

lemma cjkBoldLength_eq:
  assumes "0 < L" "L < 2 ^ 32"
  shows "cjkBoldLength L S =
    (if S = 3 then \<lceil>(of_nat L :: rat) * 7 / 10\<rceil>
     else if S = 1 then 1
     else if 2 \<le> L then \<lceil>(of_nat L :: rat) / 2\<rceil> else 1)"
  using assms
  by (simp add: cjkBoldLength_def Let_def mathCeil_mul_0_7 mathCeil_half)

lemma ceiling_half_bounds:
  assumes "0 < L"
  shows "0 < \<lceil>(of_nat L :: rat) / 2\<rceil>" "\<lceil>(of_nat L :: rat) / 2\<rceil> \<le> int L"
proof -
  show "0 < \<lceil>(of_nat L :: rat) / 2\<rceil>" using assms by simp
  have "(of_nat L :: rat) / 2 \<le> of_int (int L)" by simp
  then show "\<lceil>(of_nat L :: rat) / 2\<rceil> \<le> int L" by (simp only: ceiling_le_iff)
qed

lemma ceiling_tenths_bounds:
  assumes "0 < L" "0 < k" "k \<le> 10"
  shows "0 < \<lceil>(of_nat L :: rat) * of_nat k / 10\<rceil>" "\<lceil>(of_nat L :: rat) * of_nat k / 10\<rceil> \<le> int L"
proof -
  show "0 < \<lceil>(of_nat L :: rat) * of_nat k / 10\<rceil>" using assms by simp
  have "(of_nat k :: rat) \<le> of_nat 10" using assms(3) by (simp only: of_nat_le_iff)
  then have "(of_nat L :: rat) * of_nat k \<le> of_nat L * 10" by (intro mult_left_mono) simp_all
  then have "(of_nat L :: rat) * of_nat k / 10 \<le> of_int (int L)" by simp
  then show "\<lceil>(of_nat L :: rat) * of_nat k / 10\<rceil> \<le> int L" by (simp only: ceiling_le_iff)
qed

lemma latinBoldLength_bounds:
  assumes "0 < L" "L < 2 ^ 32"
  shows "0 < latinBoldLength L S \<and> latinBoldLength L S \<le> int L"
  using assms ceiling_half_bounds[of L] ceiling_tenths_bounds[of L 6]
  by (simp add: latinBoldLength_eq)

lemma cjkBoldLength_bounds:
  assumes "0 < L" "L < 2 ^ 32"
  shows "0 < cjkBoldLength L S \<and> cjkBoldLength L S \<le> int L"
  using assms ceiling_half_bounds[of L] ceiling_tenths_bounds[of L 7]
  by (simp add: cjkBoldLength_eq)

lemma substring_prefix: "0 \<le> b \<Longrightarrow> substring s 0 b = take (nat b) s"
  by (auto simp: substring_def Let_def min_def max_def)

lemma substringFrom_suffix: "0 \<le> b \<Longrightarrow> substringFrom s b = drop (nat b) s"
  by (auto simp: substringFrom_def substring_def Let_def min_def max_def nat_diff_distrib)

lemma substring_split: "substring s 0 b @ substringFrom s b = s"
proof (cases "0 \<le> b")
  case True
  then show ?thesis by (simp add: substring_prefix substringFrom_suffix)
next
  case False
  then show ?thesis by (auto simp: substringFrom_def substring_def Let_def min_def max_def)
qed

lemma latinBoldLength_not_3: "S \<noteq> 3 \<Longrightarrow> latinBoldLength L S = latinBoldLength L 2"
  by (simp add: latinBoldLength_def Let_def)

lemma cjkBoldLength_not_1_3: "S \<noteq> 1 \<Longrightarrow> S \<noteq> 3 \<Longrightarrow> cjkBoldLength L S = cjkBoldLength L 2"
  by (simp add: cjkBoldLength_def Let_def)


section \<open>Splitting, joining and the token pattern\<close>

lemma splitFrom_not_Nil: "splitFrom sep piece s \<noteq> []"
  by (induction s arbitrary: piece) auto

lemma joinWith_Cons: "ys \<noteq> [] \<Longrightarrow> joinWith sep (x # ys) = x @ sep @ joinWith sep ys"
  by (cases ys) auto

lemma joinWith_splitFrom: "joinWith [sep] (splitFrom sep piece s) = piece @ s"
  by (induction s arbitrary: piece) (auto simp: joinWith_Cons splitFrom_not_Nil)

lemma concat_spaced_splitFrom:
  "concat (map (\<lambda>w. w @ [sep]) (splitFrom sep piece s)) = piece @ s @ [sep]"
  by (induction s arbitrary: piece) auto

lemma tryCore_parts: "tryCore w i j = Some (p, c, s) \<Longrightarrow> p @ c @ s = w"
proof (induction j)
  case 0
  then show ?case by simp
next
  case (Suc j)
  have "take i w @ take (Suc j) (drop i w) @ drop (i + Suc j) w = w"
    by (metis append_take_drop_id drop_drop add.commute)
  with Suc show ?case by (auto split: if_splits)
qed

lemma tryPrefix_parts: "tryPrefix w i = Some (p, c, s) \<Longrightarrow> p @ c @ s = w"
  by (induction i) (auto split: option.splits dest: tryCore_parts)

lemma matchWord_parts: "matchWord w = Some (p, c, s) \<Longrightarrow> p @ c @ s = w"
  unfolding matchWord_def by (rule tryPrefix_parts)

text \<open>The core of a match is never empty, so the test \<^verbatim>\<open>!core\<close> never succeeds.\<close>

lemma tryCore_core:
  "tryCore w i j = Some (p, c, s) \<Longrightarrow> j \<le> length w - i \<Longrightarrow> c \<noteq> []"
  by (induction j) (auto split: if_splits)

lemma longestCore_le: "longestCore w i \<le> length w - i"
  using length_takeWhile_le[of isCoreChar "drop i w"] by (simp add: longestCore_def)

lemma tryPrefix_core: "tryPrefix w i = Some (p, c, s) \<Longrightarrow> c \<noteq> []"
proof (induction i)
  case 0
  then show ?case using tryCore_core[OF _ longestCore_le, of w 0 p c s] by simp
next
  case (Suc i)
  then show ?case
    using tryCore_core[OF _ longestCore_le, of w "Suc i" p c s]
    by (auto split: option.splits)
qed

lemma matchWord_core: "matchWord w = Some (p, c, s) \<Longrightarrow> c \<noteq> []"
  unfolding matchWord_def by (rule tryPrefix_core)

lemma latinWord_matched:
  assumes "matchWord w = Some (prefix, core, suffix)"
  shows "latinWord S w =
    BionicLatin prefix (substring core 0 (latinBoldLength (length core) S))
      (substringFrom core (latinBoldLength (length core) S)) suffix"
  using assms matchWord_core[OF assms] by (simp add: latinWord_def Let_def)

lemma latinWord_unmatched: "matchWord w = None \<Longrightarrow> latinWord S w = PlainSpaced w"
  by (simp add: latinWord_def)

lemma cjkSegment_word:
  assumes "trim w \<noteq> []" "isChineseChar w \<or> hasWordChar w"
  shows "cjkSegment S w =
    BionicCJK (substring w 0 (cjkBoldLength (length w) S))
      (substringFrom w (cjkBoldLength (length w) S))"
  using assms by (auto simp: cjkSegment_def Let_def)

lemma segmentText_latinWord: "segmentText (latinWord S w) = w"
  by (auto simp: latinWord_def Let_def substring_split split: option.splits dest: matchWord_parts)

lemma textContent_latinWord: "textContent (latinWord S w) = w @ [0x20]"
  by (auto simp: latinWord_def Let_def substring_split split: option.splits dest: matchWord_parts)

lemma latinSpan_latinWord: "latinSpan (latinWord S w)"
  by (auto simp: latinWord_def Let_def split: option.splits)

lemma segmentText_cjkSegment: "segmentText (cjkSegment S w) = w"
  by (simp add: cjkSegment_def Let_def substring_split)

lemma chineseSpan_cjkSegment: "chineseSpan (cjkSegment S w)"
  by (simp add: cjkSegment_def Let_def)


section \<open>Counting paragraphs\<close>

lemma countRuns_skip_newlines:
  "countRuns False (dropWhile (\<lambda>d. d = 0x0A) cs) = countRuns False cs"
  by (induction cs) auto

lemma countRuns_start:
  "cs \<noteq> [] \<Longrightarrow> hd cs \<noteq> 0x0A \<Longrightarrow> countRuns False cs = Suc (countRuns True cs)"
  by (cases cs) auto

lemma hd_dropWhile_newlines:
  "dropWhile (\<lambda>d. d = 0x0A) cs \<noteq> [] \<Longrightarrow> hd (dropWhile (\<lambda>d. d = (0x0A :: 16 word)) cs) \<noteq> 0x0A"
  using hd_dropWhile[of "\<lambda>d. d = (0x0A :: 16 word)" cs] by simp

lemma last_dropWhile_newlines:
  "dropWhile (\<lambda>d. d = 0x0A) cs \<noteq> [] \<Longrightarrow>
     last (dropWhile (\<lambda>d. d = (0x0A :: 16 word)) cs) = last cs"
  by (induction cs) (auto split: if_splits)

lemma only_newlines:
  "dropWhile (\<lambda>d. d = 0x0A) cs = [] \<Longrightarrow>
     countRuns False cs = 0 \<and> (cs \<noteq> [] \<longrightarrow> last cs = (0x0A :: 16 word))"
  by (induction cs) (auto split: if_splits)

lemma length_splitNewlinesFrom:
  "length (splitNewlinesFrom piece cs) =
     countRuns True cs + 1 + (if cs \<noteq> [] \<and> last cs = 0x0A then 1 else 0)"
proof (induction piece cs rule: splitNewlinesFrom.induct)
  case (1 piece)
  then show ?case by simp
next
  case (2 piece c cs)
  show ?case
  proof (cases "c = 0x0A")
    case False
    with 2 show ?thesis by simp
  next
    case True
    define d where "d = dropWhile (\<lambda>d. d = (0x0A :: 16 word)) cs"
    have ih: "length (splitNewlinesFrom [] d) =
        countRuns True d + 1 + (if d \<noteq> [] \<and> last d = 0x0A then 1 else 0)"
      using 2(1)[OF True] by (simp add: d_def)
    show ?thesis
    proof (cases "d = []")
      case True
      then have "countRuns False cs = 0" "cs \<noteq> [] \<longrightarrow> last cs = 0x0A"
        using only_newlines[of cs] by (simp_all add: d_def)
      then show ?thesis using \<open>c = 0x0A\<close> ih True by (simp add: d_def[symmetric])
    next
      case False
      then have "hd d \<noteq> 0x0A" "last d = last cs" "cs \<noteq> []"
        using hd_dropWhile_newlines[of cs] last_dropWhile_newlines[of cs] by (auto simp: d_def)
      moreover have "countRuns False cs = countRuns False d"
        by (simp add: d_def countRuns_skip_newlines)
      moreover have "countRuns False d = Suc (countRuns True d)"
        using False \<open>hd d \<noteq> 0x0A\<close> by (rule countRuns_start)
      ultimately show ?thesis using \<open>c = 0x0A\<close> ih False by (simp add: d_def[symmetric])
    qed
  qed
qed

lemma length_splitNewlines:
  assumes "text \<noteq> []"
  shows "length (splitNewlines text) =
     nonEmptyRuns text + (if hd text = 0x0A then 1 else 0) + (if last text = 0x0A then 1 else 0)"
proof -
  obtain c cs where t: "text = c # cs" using assms by (cases "text") auto
  have "nonEmptyRuns text = countRuns True text + (if hd text = 0x0A then 0 else 1)"
    by (simp add: nonEmptyRuns_def t)
  then show ?thesis using assms
    by (simp add: splitNewlines_def length_splitNewlinesFrom)
qed

lemma nonempty_splitNewlinesFrom:
  "length (filter (\<lambda>p. p \<noteq> []) (splitNewlinesFrom piece cs)) =
     countRuns (piece \<noteq> []) cs + (if piece \<noteq> [] then 1 else 0)"
proof (induction piece cs rule: splitNewlinesFrom.induct)
  case (1 piece)
  then show ?case by simp
next
  case (2 piece c cs)
  show ?case
  proof (cases "c = 0x0A")
    case True
    with 2(1) show ?thesis by (simp add: countRuns_skip_newlines)
  next
    case False
    with 2(2) show ?thesis by simp
  qed
qed

lemma nonempty_splitNewlines:
  "length (filter (\<lambda>p. p \<noteq> []) (splitNewlines text)) = nonEmptyRuns text"
  by (simp add: splitNewlines_def nonEmptyRuns_def nonempty_splitNewlinesFrom)

lemma empty_splitNewlines:
  assumes "text \<noteq> []"
  shows "length (filter (\<lambda>p. p = []) (splitNewlines text)) =
     (if hd text = 0x0A then 1 else 0) + (if last text = 0x0A then 1 else 0)"
proof -
  have "length (filter (\<lambda>p. p \<noteq> []) (splitNewlines text))
      + length (filter (\<lambda>p. \<not> p \<noteq> []) (splitNewlines text)) = length (splitNewlines text)"
    by (rule sum_length_filter_compl)
  then show ?thesis
    using length_splitNewlines[OF assms] by (simp add: nonempty_splitNewlines)
qed

lemma length_processedContent:
  "length (processedContent intl text settings) =
     (if bionicEnabled settings \<and> text = [] then 0 else length (splitNewlines text))"
  by (simp add: processedContent_def transformToBionic_def)

lemma reconstruct_transformParagraph:
  assumes "\<forall>segment. intl = Some segment \<longrightarrow> concat (segment p) = p"
  shows "reconstruct (transformParagraph intl S p) = p"
proof (cases "hasChinese p")
  case True
  have "concat (cjkSegments intl p) = p"
    using assms by (cases intl) (simp_all add: cjkSegments_def)
  then show ?thesis using True
    by (simp add: transformParagraph_def comp_def segmentText_cjkSegment)
next
  case False
  then show ?thesis
    by (simp add: transformParagraph_def comp_def segmentText_latinWord splitSpace_def
        joinWith_splitFrom)
qed


section \<open>The bold-length tables and bounds\<close>

text \<open>
  \<^bold>\<open>C1.\<close> For a Latin core of length \<open>L \<ge> 1\<close> and a strength \<open>S\<close> among 1, 2, 3 the bold
  length is 1 when \<open>L \<le> 3\<close> and \<open>S\<close> is 1 or 2, the ceiling of \<open>L / 2\<close> when \<open>L > 3\<close> and
  \<open>S\<close> is 1 or 2, and the ceiling of \<open>L * 0.6\<close> when \<open>S = 3\<close>, whatever \<open>L\<close>. The ceilings on
  the right are those of the exact fractions; \<open>L\<close> is the length of a string, below \<open>2^32\<close>.
\<close>

theorem latin_boldLength_table:
  assumes "1 \<le> L" "L < 2 ^ 32" "S = 1 \<or> S = 2 \<or> S = 3"
  shows "latinBoldLength L S =
    (if S = 3 then \<lceil>(of_nat L :: rat) * 6 / 10\<rceil>
     else if L \<le> 3 then 1 else \<lceil>(of_nat L :: rat) / 2\<rceil>)"
proof -
  have "0 < L" using assms(1) by simp
  then show ?thesis using assms(2) by (simp add: latinBoldLength_eq)
qed

theorem latin_boldLength_table_witness:
  "(1::nat) \<le> 8 \<and> (8::nat) < 2 ^ 32 \<and> latinBoldLength 8 3 = 5 \<and> latinBoldLength 8 2 = 4
   \<and> latinBoldLength 3 1 = 1 \<and> latinBoldLength 3 3 = 2"
  using latin_boldLength_table[of 8 3] latin_boldLength_table[of 8 2]
    latin_boldLength_table[of 3 1] latin_boldLength_table[of 3 3]
  by (simp add: ceiling_eq_iff)

text \<open>
  \<^bold>\<open>C2.\<close> For a word segment of a Chinese paragraph of length \<open>L \<ge> 1\<close> and a strength \<open>S\<close>
  among 1, 2, 3 the bold length is 1 when \<open>S = 1\<close>, the ceiling of \<open>L * 0.7\<close> when \<open>S = 3\<close>,
  and for \<open>S = 2\<close> the baseline: 1 when \<open>L = 1\<close>, the ceiling of \<open>L / 2\<close> when \<open>L \<ge> 2\<close>.
\<close>

theorem cjk_boldLength_table:
  assumes "1 \<le> L" "L < 2 ^ 32" "S = 1 \<or> S = 2 \<or> S = 3"
  shows "cjkBoldLength L S =
    (if S = 1 then 1
     else if S = 3 then \<lceil>(of_nat L :: rat) * 7 / 10\<rceil>
     else if L = 1 then 1 else \<lceil>(of_nat L :: rat) / 2\<rceil>)"
proof -
  have "0 < L" using assms(1) by simp
  then show ?thesis using assms by (auto simp: cjkBoldLength_eq)
qed

theorem cjk_boldLength_table_witness:
  "(1::nat) \<le> 3 \<and> (3::nat) < 2 ^ 32 \<and> cjkBoldLength 3 1 = 1 \<and> cjkBoldLength 3 2 = 2
   \<and> cjkBoldLength 3 3 = 3 \<and> cjkBoldLength 1 2 = 1"
  using cjk_boldLength_table[of 3 1] cjk_boldLength_table[of 3 2]
    cjk_boldLength_table[of 3 3] cjk_boldLength_table[of 1 2]
  by (simp add: ceiling_eq_iff)

text \<open>
  \<^bold>\<open>C8.\<close> For a non-empty core of length \<open>L\<close> and any strength whatever, the bold length
  lies between 0 and \<open>L\<close> in both branches, although the code never clamps it; so the bold
  part is the first \<open>boldLength\<close> code units of the core and the normal part is the rest.
\<close>

theorem boldLength_in_range:
  assumes "core \<noteq> []" "length core < 2 ^ 32"
  shows "0 \<le> latinBoldLength (length core) S
       \<and> latinBoldLength (length core) S \<le> int (length core)
       \<and> 0 \<le> cjkBoldLength (length core) S
       \<and> cjkBoldLength (length core) S \<le> int (length core)
       \<and> substring core 0 (latinBoldLength (length core) S)
           = take (nat (latinBoldLength (length core) S)) core
       \<and> substringFrom core (latinBoldLength (length core) S)
           = drop (nat (latinBoldLength (length core) S)) core
       \<and> substring core 0 (cjkBoldLength (length core) S)
           = take (nat (cjkBoldLength (length core) S)) core
       \<and> substringFrom core (cjkBoldLength (length core) S)
           = drop (nat (cjkBoldLength (length core) S)) core"
proof -
  have l: "0 < length core" using assms(1) by simp
  have a: "0 < latinBoldLength (length core) S" "latinBoldLength (length core) S \<le> int (length core)"
    using latinBoldLength_bounds[OF l assms(2)] by simp_all
  have b: "0 < cjkBoldLength (length core) S" "cjkBoldLength (length core) S \<le> int (length core)"
    using cjkBoldLength_bounds[OF l assms(2)] by simp_all
  show ?thesis using a b by (simp add: substring_prefix substringFrom_suffix)
qed

theorem boldLength_in_range_witness:
  "0 \<le> latinBoldLength 3 (5 / 2) \<and> latinBoldLength 3 (5 / 2) \<le> 3
   \<and> 0 \<le> cjkBoldLength 3 (5 / 2) \<and> cjkBoldLength 3 (5 / 2) \<le> 3"
  using boldLength_in_range[of "[0x61, 0x62, 0x63]" "5 / 2"] by (simp add: numeral_3_eq_3)


section \<open>Paragraphs and modes\<close>

text \<open>
  \<^bold>\<open>C7.\<close> A paragraph goes through the Chinese branch exactly when one of its code units
  lies in U+4E00 to U+9FA5, and through the Latin branch otherwise. The choice is made once
  for the paragraph: all spans of a Chinese paragraph come from the Chinese branch, all spans of
  a Latin paragraph from the Latin branch.
\<close>

theorem mode_per_paragraph:
  "transformParagraph intl S p =
     (if \<exists>c \<in> set p. 0x4E00 \<le> c \<and> c \<le> 0x9FA5
      then ChineseP (map (cjkSegment S) (cjkSegments intl p))
      else LatinP (map (latinWord S) (splitSpace p)))
   \<and> list_all chineseSpan (map (cjkSegment S) (cjkSegments intl p))
   \<and> list_all latinSpan (map (latinWord S) (splitSpace p))"
  by (auto simp: transformParagraph_def hasChinese_def inChineseRange_def list_ex_iff
      list_all_iff chineseSpan_cjkSegment latinSpan_latinWord)

theorem mode_per_paragraph_witness:
  "transformParagraph None 2 [0x61, 0x4F60] = ChineseP [BionicCJK [0x61] [], BionicCJK [0x4F60] []]
   \<and> transformParagraph None 2 [0x61, 0x20, 0x9FC0] =
       LatinP [BionicLatin [] [0x61] [] [], BionicLatin [] [0x9FC0] [] []]"
proof -
  have a: "cjkSegments None [0x61, 0x4F60] = [[0x61], [0x4F60]]" by (simp add: cjkSegments_def)
  have b: "cjkSegment 2 [0x61] = BionicCJK [0x61] []"
    "cjkSegment 2 [0x4F60] = BionicCJK [0x4F60] []"
    by code_simp+
  have c: "map (latinWord 2) (splitSpace [0x61, 0x20, 0x9FC0])
      = [BionicLatin [] [0x61] [] [], BionicLatin [] [0x9FC0] [] []]"
    by code_simp
  show ?thesis
    using mode_per_paragraph[of None 2 "[0x61, 0x4F60]"]
      mode_per_paragraph[of None 2 "[0x61, 0x20, 0x9FC0]"]
    by (simp add: a b c)
qed

text \<open>
  \<^bold>\<open>C5.\<close> With bionic reading off, whatever the strength, the result has one
  \<^verbatim>\<open><p>\<close> for each piece of the split, and its only child is the text of that piece,
  unchanged and without any bold element.
\<close>

theorem disabled_is_plain:
  "processedContent intl text \<lparr>bionicEnabled = False, bionicStrength = S\<rparr>
     = map PlainP (splitNewlines text)
   \<and> annotate intl text False S = Inr (map PlainP (splitNewlines text))"
  by (simp add: annotate_def processedContent_def)

theorem disabled_is_plain_witness:
  "annotate None [0x48, 0x69, 0x0A, 0x0A, 0x4F60] False 3
     = Inr [PlainP [0x48, 0x69], PlainP [0x4F60]]"
proof -
  have "splitNewlines [0x48, 0x69, 0x0A, 0x0A, 0x4F60] = [[0x48, 0x69], [0x4F60]]"
    by (simp add: splitNewlines_def)
  then show ?thesis
    using disabled_is_plain[of None "[0x48, 0x69, 0x0A, 0x0A, 0x4F60]" 3] by simp
qed

text \<open>
  \<^bold>\<open>C4\<close>, as the code has it. The paragraphs are the pieces of \<^verbatim>\<open>split(/\n+/)\<close>, one
  element for each piece, and nothing filters them. For a text that is not empty their number
  is the number of maximal runs of code units other than newline, plus one when the text
  begins with a newline and plus one when it ends with one: the pieces that are not empty are
  as many as the runs, and the empty ones are the one in front of a leading newline and the
  one behind a trailing newline. With bionic reading on, the empty text gives no paragraph at
  all.
\<close>

theorem processedContent_paragraph_count:
  "(text \<noteq> [] \<longrightarrow>
      processedContent intl text settings =
        map (if bionicEnabled settings then transformParagraph intl (bionicStrength settings)
             else PlainP) (splitNewlines text)
      \<and> length (processedContent intl text settings) =
          nonEmptyRuns text + (if hd text = 0x0A then 1 else 0)
            + (if last text = 0x0A then 1 else 0)
      \<and> length (filter (\<lambda>p. p \<noteq> []) (splitNewlines text)) = nonEmptyRuns text
      \<and> length (filter (\<lambda>p. p = []) (splitNewlines text)) =
          (if hd text = 0x0A then 1 else 0) + (if last text = 0x0A then 1 else 0))
   \<and> processedContent intl [] \<lparr>bionicEnabled = True, bionicStrength = S\<rparr> = []"
  by (simp add: length_processedContent length_splitNewlines nonempty_splitNewlines
      empty_splitNewlines)
     (simp add: processedContent_def transformToBionic_def)

theorem processedContent_paragraph_count_witness:
  "[0x0A, 0x61, 0x0A, 0x0A, 0x62, 0x0A] \<noteq> ([] :: jsstring)
   \<and> length (processedContent None [0x0A, 0x61, 0x0A, 0x0A, 0x62, 0x0A]
        \<lparr>bionicEnabled = False, bionicStrength = 2\<rparr>) = 4
   \<and> nonEmptyRuns [0x0A, 0x61, 0x0A, 0x0A, 0x62, 0x0A] = 2"
proof -
  have h: "[0x0A, 0x61, 0x0A, 0x0A, 0x62, 0x0A] \<noteq> ([] :: jsstring)" by simp
  have r: "nonEmptyRuns [0x0A, 0x61, 0x0A, 0x0A, 0x62, 0x0A] = 2"
    by (simp add: nonEmptyRuns_def)
  have "length (processedContent None [0x0A, 0x61, 0x0A, 0x0A, 0x62, 0x0A]
        \<lparr>bionicEnabled = False, bionicStrength = 2\<rparr>)
      = nonEmptyRuns [0x0A, 0x61, 0x0A, 0x0A, 0x62, 0x0A]
        + (if hd [0x0A, 0x61, 0x0A, 0x0A, 0x62, 0x0A] = (0x0A :: 16 word) then 1 else 0)
        + (if last [0x0A, 0x61, 0x0A, 0x0A, 0x62, 0x0A] = (0x0A :: 16 word) then 1 else 0)"
    using processedContent_paragraph_count[of "[0x0A, 0x61, 0x0A, 0x0A, 0x62, 0x0A]" None
        "\<lparr>bionicEnabled = False, bionicStrength = 2\<rparr>" 2] h
    by blast
  then show ?thesis using r by simp
qed

text \<open>
  As stated, with the number of paragraphs equal to the number of runs, C4 fails on a text
  that ends with a newline: \<^verbatim>\<open>"a\n"\<close> has one run and gives two paragraphs, the second
  one empty.
\<close>

theorem paragraph_count_counterexample:
  "processedContent None [0x61, 0x0A] \<lparr>bionicEnabled = True, bionicStrength = 2\<rparr>
     = [LatinP [BionicLatin [] [0x61] [] []], LatinP [PlainSpaced []]]
   \<and> nonEmptyRuns [0x61, 0x0A] = 1
   \<and> length (processedContent None [0x61, 0x0A] \<lparr>bionicEnabled = True, bionicStrength = 2\<rparr>)
       \<noteq> nonEmptyRuns [0x61, 0x0A]"
  by code_simp

text \<open>
  \<^bold>\<open>C3.\<close> Putting leading, bold, normal and trailing of every segment of a paragraph
  together, with one space between Latin tokens and nothing between Chinese segments, gives
  back the text of the paragraph, for every text, every strength and both values of the
  switch. The runtime's segmenter, when there is one, is assumed to cut a paragraph into
  consecutive pieces, as \<^verbatim>\<open>Intl.Segmenter\<close> does.
\<close>

theorem reconstruct_processedContent:
  assumes "\<forall>segment. intl = Some segment \<longrightarrow>
             (\<forall>p \<in> set (splitNewlines text). concat (segment p) = p)"
  shows "map reconstruct (processedContent intl text settings) =
           (if bionicEnabled settings \<and> text = [] then [] else splitNewlines text)"
proof -
  have "map (\<lambda>p. reconstruct (transformParagraph intl S p)) (splitNewlines text)
          = splitNewlines text" for S
  proof -
    have "\<forall>p \<in> set (splitNewlines text). reconstruct (transformParagraph intl S p) = p"
      using assms by (auto intro!: reconstruct_transformParagraph)
    then show ?thesis by (simp add: map_idI)
  qed
  then show ?thesis
    by (simp add: processedContent_def transformToBionic_def comp_def)
qed

theorem reconstruct_processedContent_witness:
  "map reconstruct
     (processedContent (Some (\<lambda>p. [take 2 p, drop 2 p]))
        [0x48, 0x69, 0x20, 0x79, 0x6F, 0x75, 0x21, 0x0A, 0x4F60, 0x597D, 0x3002]
        \<lparr>bionicEnabled = True, bionicStrength = 3\<rparr>)
   = [[0x48, 0x69, 0x20, 0x79, 0x6F, 0x75, 0x21], [0x4F60, 0x597D, 0x3002]]"
proof -
  have s: "splitNewlines [0x48, 0x69, 0x20, 0x79, 0x6F, 0x75, 0x21, 0x0A, 0x4F60, 0x597D, 0x3002]
      = [[0x48, 0x69, 0x20, 0x79, 0x6F, 0x75, 0x21], [0x4F60, 0x597D, 0x3002]]"
    by (simp add: splitNewlines_def)
  show ?thesis
    using reconstruct_processedContent[of "Some (\<lambda>p. [take 2 p, drop 2 p])"
        "[0x48, 0x69, 0x20, 0x79, 0x6F, 0x75, 0x21, 0x0A, 0x4F60, 0x597D, 0x3002]"
        "\<lparr>bionicEnabled = True, bionicStrength = 3\<rparr>"]
    by (simp add: s)
qed

text \<open>
  \<^bold>\<open>C10.\<close> In a Latin paragraph every token, matched or not, the last one included, is
  rendered with one space behind it, so the text the paragraph shows is the original
  paragraph followed by one space.
\<close>

theorem latin_trailing_space:
  assumes "\<not> hasChinese p"
  shows "transformParagraph intl S p = LatinP (map (latinWord S) (splitSpace p))
       \<and> map textContent (map (latinWord S) (splitSpace p))
           = map (\<lambda>word. word @ [0x20]) (splitSpace p)
       \<and> paragraphText (transformParagraph intl S p) = p @ [0x20]"
proof -
  have "concat (map (\<lambda>word. word @ [0x20]) (splitSpace p)) = p @ [0x20]"
    using concat_spaced_splitFrom[of "0x20" "[]" p] by (simp add: splitSpace_def)
  then show ?thesis using assms
    by (simp add: transformParagraph_def comp_def textContent_latinWord)
qed

theorem latin_trailing_space_witness:
  "\<not> hasChinese [0x48, 0x69, 0x21, 0x20, 0x2D]
   \<and> paragraphText (transformParagraph None 2 [0x48, 0x69, 0x21, 0x20, 0x2D])
       = [0x48, 0x69, 0x21, 0x20, 0x2D, 0x20]"
proof -
  have h: "\<not> hasChinese [0x48, 0x69, 0x21, 0x20, 0x2D]" by code_simp
  have "paragraphText (transformParagraph None 2 [0x48, 0x69, 0x21, 0x20, 0x2D])
      = [0x48, 0x69, 0x21, 0x20, 0x2D] @ [0x20]"
    using latin_trailing_space[OF h, of None 2] by (rule conjunct2[THEN conjunct2])
  then show ?thesis using h by simp
qed


section \<open>Strength values outside 1, 2, 3\<close>

text \<open>
  \<^bold>\<open>C6\<close>, as the code has it. Nothing checks the strength. For a strength other than 1, 2
  and 3 none of the comparisons with 1 and 3 holds, and the comparison with 2 only ever sets
  the bold length to the value it has already; the call returns what it returns for
  strength 2, and no error is signalled.
\<close>

theorem invalid_strength_not_rejected:
  assumes "S \<noteq> 1" "S \<noteq> 2" "S \<noteq> 3"
  shows "annotate intl text enabled S = annotate intl text enabled 2
         \<and> annotate intl text enabled S \<noteq> Inl InvalidArgument"
proof -
  have "latinWord S = latinWord 2"
    using assms
    by (auto simp: fun_eq_iff latinWord_def latinBoldLength_not_3[of S] split: option.splits)
  moreover have "cjkSegment S = cjkSegment 2"
    using assms by (simp add: fun_eq_iff cjkSegment_def cjkBoldLength_not_1_3[of S])
  ultimately have "transformParagraph intl S = transformParagraph intl 2"
    by (simp add: fun_eq_iff transformParagraph_def)
  then show ?thesis
    by (simp add: annotate_def processedContent_def transformToBionic_def)
qed

theorem invalid_strength_not_rejected_witness:
  "annotate None [0x4F60, 0x597D] True 7 = annotate None [0x4F60, 0x597D] True 2
   \<and> annotate None [0x4F60, 0x597D] True 7 \<noteq> Inl InvalidArgument"
proof -
  have h: "(7::rat) \<noteq> 1" "(7::rat) \<noteq> 2" "(7::rat) \<noteq> 3" by simp_all
  show ?thesis by (rule invalid_strength_not_rejected[OF h])
qed

text \<open>
  As stated, with an invalid-argument error for such a strength, C6 fails: strength 0 on
  \<^verbatim>\<open>"abcd"\<close> returns an annotated paragraph.
\<close>

theorem invalid_strength_counterexample:
  "annotate None [0x61, 0x62, 0x63, 0x64] True 0
     = Inr [LatinP [BionicLatin [] [0x61, 0x62] [0x63, 0x64] []]]"
  by code_simp


section \<open>The classifier's range and the tokenizer's\<close>

text \<open>
  \<^bold>\<open>C9.\<close> A paragraph whose ideographs all lie in U+9FA6 to U+9FFF is not Chinese for the
  classifier and goes through the Latin branch, where these code units are in the class of
  the core group. They are also matched by \<^verbatim>\<open>\W\<close>, and the greedy first group takes them
  before the core can: of the token U+9FC0 U+9FC0 the first code unit becomes the prefix and
  only the second one the core.
\<close>

theorem tokenizer_prefix_takes_cjk:
  "\<not> hasChinese [0x9FC0, 0x9FC0]
   \<and> matchWord [0x9FC0, 0x9FC0] = Some ([0x9FC0], [0x9FC0], [])
   \<and> transformParagraph None 2 [0x9FC0, 0x9FC0] = LatinP [BionicLatin [0x9FC0] [0x9FC0] [] []]"
  by code_simp

end
